theory Spec2Isabelle
  imports
    Main
    "HOL-Library.Word"
    "HOL-Library.Char_ord"
    "HOL-Library.List_Lexorder"
    "HOL-Library.Multiset"
    "HOL-Library.Code_Target_Nat"
begin

unbundle bit_operations_syntax

section \<open>The price table generator: \<open>hack/code/prices_gen.go\<close>\<close>

text \<open>
  The generator renders a Go map literal of instance type prices into a
  \<^verbatim>\<open>bytes.Buffer\<close>. The embedding follows \<^verbatim>\<open>writePricing\<close> and \<^verbatim>\<open>newline\<close>
  line by line. Go strings and the buffer are byte sequences, modelled as \<open>string\<close>
  (a list of 8-bit characters); \<^verbatim>\<open>float64\<close> is its 64-bit IEEE 754 pattern;
  \<^verbatim>\<open>log.Fatalf\<close> (which prints and exits the process with status 1) is the error
  branch of a sum type.
\<close>

subsection \<open>Library functions the generator calls\<close>

type_synonym float64 = "64 word"

abbreviation NL :: char where "NL \<equiv> CHR 0x0A"
abbreviation DQ :: char where "DQ \<equiv> CHR 0x22"

text \<open>
  \<^verbatim>\<open>strings.Split(s, sep)\<close> for a separator of one byte: the substrings between the
  separators, scanning from the left; \<open>seg\<close> is the segment read so far. An input
  with no separator gives the one-element list holding the input.
\<close>

fun splitFrom :: "char \<Rightarrow> string \<Rightarrow> string \<Rightarrow> string list" where
  "splitFrom sep seg [] = [seg]"
| "splitFrom sep seg (c # cs) =
     (if c = sep then seg # splitFrom sep [] cs else splitFrom sep (seg @ [c]) cs)"

definition Split :: "string \<Rightarrow> char \<Rightarrow> string list" where
  "Split s sep = splitFrom sep [] s"

text \<open>Decimal digits of a natural number, most significant first.\<close>

fun digits :: "nat \<Rightarrow> string" where
  "digits n =
     (if n < 10 then [''0123456789'' ! n]
      else digits (n div 10) @ [''0123456789'' ! (n mod 10)])"

declare digits.simps [simp del]

text \<open>Division rounded to the nearest integer, a tie going to the even neighbour.\<close>

definition roundHalfEven :: "nat \<Rightarrow> nat \<Rightarrow> nat" where
  "roundHalfEven a d =
     (let q = a div d; r = a mod d
      in if d < 2 * r \<or> (2 * r = d \<and> odd q) then q + 1 else q)"

text \<open>
  The verb \<^verbatim>\<open>%f\<close> of package \<^verbatim>\<open>fmt\<close> on a \<^verbatim>\<open>float64\<close>, which is
  \<^verbatim>\<open>strconv.FormatFloat(v, 'f', 6, 64)\<close>: the exact value of the float, rounded to six
  digits after the decimal point (ties to even), in fixed notation, with a minus sign
  when the sign bit is set. A finite float with biased exponent \<open>e\<close> and significand
  \<open>mant\<close> has the magnitude \<open>mant * 2 ^ e / 2 ^ 1075\<close>; \<open>scaled\<close> is that
  magnitude times \<open>10 ^ 6\<close>, rounded. Not-a-number and the infinities print as words.
\<close>

definition fmtFloat :: "float64 \<Rightarrow> string" where
  "fmtFloat v =
     (let neg = bit v 63;
          exp = unat (drop_bit 52 v AND 0x7FF);
          frac = unat (v AND 0xFFFFFFFFFFFFF)
      in if exp = 2047 then
           (if frac \<noteq> 0 then ''NaN'' else if neg then ''-Inf'' else ''+Inf'')
         else
           (let mant = (if exp = 0 then frac else frac + 2 ^ 52);
                e = (if exp = 0 then 1 else exp);
                scaled = (if 1075 \<le> e then mant * 10 ^ 6 * 2 ^ (e - 1075)
                          else roundHalfEven (mant * 10 ^ 6) (2 ^ (1075 - e)));
                fracDigits = digits (scaled mod 10 ^ 6)
            in (if neg then ''-'' else '''') @ digits (scaled div 10 ^ 6) @ ''.''
               @ replicate (6 - length fracDigits) (CHR ''0'') @ fracDigits))"

text \<open>The verb \<^verbatim>\<open>%v\<close> on a slice of strings: the elements between brackets, separated by spaces.\<close>

fun joinSpace :: "string list \<Rightarrow> string" where
  "joinSpace [] = []"
| "joinSpace [x] = x"
| "joinSpace (x # y # zs) = x @ '' '' @ joinSpace (y # zs)"

definition fmtSlice :: "string list \<Rightarrow> string" where
  "fmtSlice segs = ''['' @ joinSpace segs @ '']''"

subsection \<open>The generator\<close>

text \<open>\<^verbatim>\<open>log.Fatalf\<close> with its message: the process ends there, and nothing is returned.\<close>

datatype error = Fatal string

text \<open>
  \<^verbatim>\<open>newline\<close> adds a line break to the buffer unless the buffer ends with one. On the
  empty buffer the source calls \<^verbatim>\<open>fmt.Println(src)\<close>, which prints to the standard
  output and leaves the buffer as it is.
\<close>

definition newline :: "string \<Rightarrow> string" where
  "newline contents =
     (if length contents = 0 then contents
      else if last contents = NL then contents
      else contents @ [NL])"

text \<open>
  The local variables of \<^verbatim>\<open>writePricing\<close> that the loop changes: the buffer \<open>src\<close>,
  the counter \<open>lineLen\<close> (a Go \<^verbatim>\<open>int\<close>, which the text written by one run cannot
  overflow) and \<open>previousFamily\<close>.
\<close>

record state =
  src :: string
  lineLen :: nat
  previousFamily :: string

text \<open>The text written for one entry: \<^verbatim>\<open>fmt.Fprintf(src, `"%s":%f, `, instanceName, price)\<close>.\<close>

definition entry :: "string \<Rightarrow> float64 \<Rightarrow> string" where
  "entry instanceName price =
     [DQ] @ instanceName @ [DQ] @ '':'' @ fmtFloat price @ '', ''"

text \<open>Lines 110 to 115: a new family starts on a line of its own, under a comment.\<close>

definition familyGroup :: "state \<Rightarrow> string \<Rightarrow> state" where
  "familyGroup st family =
     (if family \<noteq> previousFamily st then
        st\<lparr>previousFamily := family,
           src := newline (src st) @ ''// '' @ family @ '' family'' @ [NL],
           lineLen := 0\<rparr>
      else st)"

text \<open>
  Lines 117 to 125: the entry is written, its width \<open>n\<close> is added to the counter, and the
  line is broken once the counter is above 80. Writing to a \<^verbatim>\<open>bytes.Buffer\<close> returns
  no error, so the \<^verbatim>\<open>log.Fatalf\<close> of line 119 is never reached.
\<close>

definition writeEntry :: "state \<Rightarrow> string \<Rightarrow> float64 \<Rightarrow> state" where
  "writeEntry st instanceName price =
     (let n = length (entry instanceName price);
          st1 = st\<lparr>src := src st @ entry instanceName price, lineLen := lineLen st + n\<rparr>
      in if 80 < lineLen st1 then st1\<lparr>lineLen := 0, src := src st1 @ [NL]\<rparr> else st1)"

text \<open>
  One iteration of the loop (lines 99 to 125). \<open>getPrice\<close> returns \<open>None\<close> where the
  Go function returns an error.
\<close>

definition iteration ::
  "(string \<Rightarrow> float64 option) \<Rightarrow> state \<Rightarrow> string \<Rightarrow> error + state" where
  "iteration getPrice st instanceName =
     (let segs = Split instanceName (CHR ''.'')
      in if length segs \<noteq> 2 then
           Inl (Fatal (''parsing instance family '' @ instanceName @ '', got '' @ fmtSlice segs))
         else
           (case getPrice instanceName of
              None \<Rightarrow> Inr st
            | Some price \<Rightarrow> Inr (writeEntry (familyGroup st (segs ! 0)) instanceName price)))"

fun loop :: "(string \<Rightarrow> float64 option) \<Rightarrow> state \<Rightarrow> string list \<Rightarrow> error + state" where
  "loop getPrice st [] = Inr st"
| "loop getPrice st (instanceName # rest) =
     (case iteration getPrice st instanceName of
        Inl e \<Rightarrow> Inl e
      | Inr st' \<Rightarrow> loop getPrice st' rest)"

text \<open>The state when the loop starts: the opening line is written (lines 94 to 97).\<close>

definition openingLine :: "string \<Rightarrow> string" where
  "openingLine varName = ''var '' @ varName @ '' = map[string]float64{'' @ [NL]"

definition start :: "string \<Rightarrow> string \<Rightarrow> state" where
  "start buf varName = \<lparr>src = buf @ openingLine varName, lineLen = 0, previousFamily = ''''\<rparr>"

text \<open>The two \<^verbatim>\<open>Fprintln\<close> calls after the loop (lines 127 and 128).\<close>

definition closingLines :: string where
  "closingLines = [NL] @ ''}'' @ [NL] @ [NL]"

text \<open>
  \<^verbatim>\<open>writePricing\<close>: \<open>buf\<close> is the content of the buffer at the call, the result is
  its content at the return. \<^verbatim>\<open>sort.Strings\<close> orders the names by the byte-wise
  lexicographic order of Go strings, which is the order of \<open>string\<close> here; a list has
  one sorted arrangement, so \<open>sort\<close> returns what any sorting algorithm returns.
  The call sorts the slice of the caller in place; \<^verbatim>\<open>main\<close> does not read the slice
  afterwards, and the model returns the buffer only.
\<close>

definition writePricing ::
  "string \<Rightarrow> string list \<Rightarrow> string \<Rightarrow> (string \<Rightarrow> float64 option) \<Rightarrow> error + string" where
  "writePricing buf instanceNames varName getPrice =
     (case loop getPrice (start buf varName) (sort instanceNames) of
        Inl e \<Rightarrow> Inl e
      | Inr st \<Rightarrow> Inr (src st @ closingLines))"

subsection \<open>Notions of the specification\<close>

text \<open>
  An identifier is well formed when splitting it at the dots gives two segments, the
  family and the size.
\<close>

definition wellFormed :: "string \<Rightarrow> bool" where
  "wellFormed instanceName = (length (Split instanceName (CHR ''.'')) = 2)"

definition familyOf :: "string \<Rightarrow> string" where
  "familyOf instanceName = Split instanceName (CHR ''.'') ! 0"

text \<open>
  The price table of the specification: the identifiers in sorted order with their
  prices, those whose lookup fails left out.
\<close>

fun surviving :: "(string \<Rightarrow> float64 option) \<Rightarrow> string list \<Rightarrow> (string \<times> float64) list" where
  "surviving getPrice [] = []"
| "surviving getPrice (instanceName # rest) =
     (case getPrice instanceName of
        None \<Rightarrow> surviving getPrice rest
      | Some price \<Rightarrow> (instanceName, price) # surviving getPrice rest)"

definition priceTable :: "(string \<Rightarrow> float64 option) \<Rightarrow> string list \<Rightarrow> (string \<times> float64) list" where
  "priceTable getPrice instanceNames = surviving getPrice (sort instanceNames)"

text \<open>
  Writing the rows of a table in order: for each row, what an iteration of the loop
  does once the lookup has succeeded.
\<close>

fun emitAll :: "state \<Rightarrow> (string \<times> float64) list \<Rightarrow> state" where
  "emitAll st [] = st"
| "emitAll st ((instanceName, price) # rows) =
     emitAll (writeEntry (familyGroup st (familyOf instanceName)) instanceName price) rows"

text \<open>
  The text that the output holds for one row of the price table: the entry of the
  row, with nothing before it or the comment of its family (after a line break when
  the line before was open), and with nothing or a line break after it.
\<close>

definition isChunk :: "string \<times> float64 \<Rightarrow> string \<Rightarrow> bool" where
  "isChunk row c =
     (let comment = ''// '' @ familyOf (fst row) @ '' family'' @ [NL];
          e = entry (fst row) (snd row)
      in c \<in> set [pre @ e @ post. pre \<leftarrow> [[], comment, [NL] @ comment], post \<leftarrow> [[], [NL]]])"

text \<open>The lines of a text: the pieces between the line breaks.\<close>

definition linesOf :: "string \<Rightarrow> string list" where
  "linesOf s = Split s NL"

text \<open>The number of bytes after the last line break of a text.\<close>

definition lastLineLen :: "string \<Rightarrow> nat" where
  "lastLineLen s = length (last (linesOf s))"

text \<open>
  The invariant of the loop for the width of the lines: the buffer is \<open>base\<close> and
  the text \<open>added\<close> since; the lines of \<open>added\<close> are within the bound, and its last
  line is within the counter, which is within 80.
\<close>

definition lineInvariant :: "string \<Rightarrow> nat \<Rightarrow> state \<Rightarrow> bool" where
  "lineInvariant base B st =
     (\<exists>added. src st = base @ added \<and> (\<forall>l\<in>set (linesOf added). length l \<le> B)
        \<and> lastLineLen added \<le> lineLen st \<and> lineLen st \<le> 80)"

text \<open>A family comment is a line \<^verbatim>\<open>// <family> family\<close>.\<close>

definition isFamilyComment :: "string \<Rightarrow> bool" where
  "isFamilyComment l =
     (10 \<le> length l \<and> take 3 l = ''// '' \<and> drop (length l - 7) l = '' family'')"

text \<open>A text ends with exactly one line break: its last byte is one, the byte before is not.\<close>

definition endsWithOneNewline :: "string \<Rightarrow> bool" where
  "endsWithOneNewline s =
     (case rev s of
        [] \<Rightarrow> False
      | [c] \<Rightarrow> c = NL
      | c # d # _ \<Rightarrow> c = NL \<and> d \<noteq> NL)"

text \<open>The float 1.0.\<close>

definition one :: float64 where
  "one = 0x3FF0000000000000"

text \<open>
  A positive finite float lies within half a unit in the last place of the fraction
  \<open>num / den\<close>: it is the float that a decimal literal of that value denotes. Its
  value is \<open>mant / 2 ^ (1075 - e)\<close>, and the inequality is multiplied out.
\<close>

definition withinHalfUlp :: "float64 \<Rightarrow> nat \<Rightarrow> nat \<Rightarrow> bool" where
  "withinHalfUlp v num den =
     (let exp = unat (drop_bit 52 v AND 0x7FF);
          frac = unat (v AND 0xFFFFFFFFFFFFF);
          mant = (if exp = 0 then frac else frac + 2 ^ 52);
          e = (if exp = 0 then 1 else exp)
      in \<not> bit v 63 \<and> exp \<noteq> 2047 \<and> e \<le> 1075 \<and>
         2 * \<bar>int mant * int den - int num * 2 ^ (1075 - e)\<bar> \<le> int den)"

text \<open>A lookup that succeeds on the identifiers of a table and fails on all others.\<close>

definition priced :: "(string \<times> float64) list \<Rightarrow> string \<Rightarrow> float64 option" where
  "priced table instanceName = map_of table instanceName"

section \<open>Properties of the loop\<close>

subsection \<open>One iteration, and the loop over a list\<close>

lemma iteration_cong: "g n = g' n \<Longrightarrow> iteration g st n = iteration g' st n"
  by (simp add: iteration_def Let_def)

lemma loop_cong: "\<forall>n\<in>set ns. g n = g' n \<Longrightarrow> loop g st ns = loop g' st ns"
proof (induction ns arbitrary: st)
  case Nil
  show ?case by simp
next
  case (Cons n ns)
  have "g n = g' n" using Cons.prems by simp
  then have it: "iteration g st n = iteration g' st n" by (rule iteration_cong)
  have "\<forall>n\<in>set ns. g n = g' n" using Cons.prems by simp
  then have "loop g st' ns = loop g' st' ns" for st' by (rule Cons.IH)
  with it show ?case by (cases "iteration g' st n") simp_all
qed

lemma writePricing_cong:
  "\<forall>n\<in>set names. g n = g' n \<Longrightarrow> writePricing buf names v g = writePricing buf names v g'"
  using loop_cong [of "sort names" g g' "start buf v"] by (simp add: writePricing_def)

lemma sort_perm: "mset xs = mset ys \<Longrightarrow> sort xs = sort (ys::string list)"
  by (metis properties_for_sort sorted_sort mset_sort)

lemma length_splitFrom: "length (splitFrom sep seg s) = Suc (count_list s sep)"
  by (induction s arbitrary: seg) auto

lemma wellFormed_iff: "wellFormed n \<longleftrightarrow> count_list n (CHR ''.'') = 1"
  by (simp add: wellFormed_def Split_def length_splitFrom)

lemma iteration_skip: "wellFormed x \<Longrightarrow> g x = None \<Longrightarrow> iteration g st x = Inr st"
  by (simp add: iteration_def wellFormed_def)

lemma iteration_fatal:
  "\<not> wellFormed m \<Longrightarrow> iteration g st m =
     Inl (Fatal (''parsing instance family '' @ m @ '', got '' @ fmtSlice (Split m (CHR ''.''))))"
  by (simp add: iteration_def wellFormed_def)

lemma iteration_emit:
  "wellFormed n \<Longrightarrow> g n = Some p \<Longrightarrow>
   iteration g st n = Inr (writeEntry (familyGroup st (familyOf n)) n p)"
  by (simp add: iteration_def wellFormed_def familyOf_def)

lemma writeEntry_src:
  "src (writeEntry st n p) =
     src st @ entry n p @ (if 80 < lineLen st + length (entry n p) then [NL] else [])"
  by (simp add: writeEntry_def Let_def)

lemma loop_skip:
  "wellFormed x \<Longrightarrow> g x = None \<Longrightarrow> loop g st (removeAll x ns) = loop g st ns"
  by (induction ns arbitrary: st) (auto simp: iteration_skip split: sum.splits)

lemma sort_removeAll: "sort (removeAll x ns) = removeAll x (sort (ns::string list))"
  by (simp add: removeAll_filter_not_eq filter_sort)

lemma loop_fatal:
  "n \<in> set ns \<Longrightarrow> \<not> wellFormed n \<Longrightarrow>
   \<exists>m\<in>set ns. \<not> wellFormed m \<and> loop g st ns =
     Inl (Fatal (''parsing instance family '' @ m @ '', got '' @ fmtSlice (Split m (CHR ''.''))))"
proof (induction ns arbitrary: st)
  case Nil
  then show ?case by simp
next
  case (Cons a ns)
  show ?case
  proof (cases "wellFormed a")
    case False
    then show ?thesis by (auto simp: iteration_fatal)
  next
    case True
    with Cons.prems have mem: "n \<in> set ns" by auto
    from True obtain st' where it: "iteration g st a = Inr st'"
      by (cases "g a") (auto simp: iteration_skip iteration_emit)
    from Cons.IH [OF mem Cons.prems(2), of st'] it show ?thesis by auto
  qed
qed

lemma loop_surviving:
  "\<forall>n\<in>set ns. wellFormed n \<Longrightarrow> loop g st ns = Inr (emitAll st (surviving g ns))"
  by (induction ns arbitrary: st) (auto simp: iteration_skip iteration_emit split: option.splits)

lemma map_fst_surviving: "map fst (surviving g ns) = filter (\<lambda>n. g n \<noteq> None) ns"
  by (induction ns) (auto split: option.splits)

lemma set_priceTable: "fst ` set (priceTable g names) = {n \<in> set names. g n \<noteq> None}"
proof -
  have "fst ` set (priceTable g names) = set (map fst (priceTable g names))" by simp
  also have "\<dots> = {n \<in> set names. g n \<noteq> None}"
    unfolding priceTable_def map_fst_surviving by auto
  finally show ?thesis .
qed

lemma writePricing_priceTable:
  assumes "\<forall>n\<in>set names. wellFormed n"
  shows "writePricing buf names v g =
    Inr (src (emitAll (start buf v) (priceTable g names)) @ closingLines)"
proof -
  from assms have "\<forall>n\<in>set (sort names). wellFormed n" by simp
  then have "loop g (start buf v) (sort names) = Inr (emitAll (start buf v) (surviving g (sort names)))"
    by (rule loop_surviving)
  then show ?thesis by (simp add: writePricing_def priceTable_def)
qed

section \<open>Properties of the render operation\<close>

subsection \<open>Determinism and independence of the input order\<close>

text \<open>
  Claim C1. Two runs of \<open>writePricing\<close> on the same buffer content, the same list of
  identifiers and the same variable name, with lookups that return the same results
  on the identifiers of the list, produce the same output, byte for byte. The lookups
  may differ on identifiers that are not in the list. No hypothesis on the identifiers
  is needed: the two runs also fail alike.
\<close>

theorem writePricing_deterministic:
  "\<forall>n\<in>set names. g n = g' n \<Longrightarrow>
   writePricing buf names v g = writePricing buf names v g'"
  by (rule writePricing_cong)

theorem writePricing_deterministic_witness:
  "priced [(''a.y'', one)] ''b.x'' = priced [(''a.y'', one), (''c.z'', one)] ''b.x''
   \<and> priced [(''a.y'', one)] ''a.y'' = priced [(''a.y'', one), (''c.z'', one)] ''a.y''
   \<and> writePricing [] [''b.x'', ''a.y''] ''v'' (priced [(''a.y'', one)])
     = writePricing [] [''b.x'', ''a.y''] ''v'' (priced [(''a.y'', one), (''c.z'', one)])"
proof -
  have h: "\<forall>n\<in>set [''b.x'', ''a.y'']. priced [(''a.y'', one)] n = priced [(''a.y'', one), (''c.z'', one)] n"
    by (simp add: priced_def)
  from h writePricing_deterministic [OF h] show ?thesis by simp
qed

text \<open>
  Claim C10. \<open>writePricing\<close> sorts the identifiers itself, so two lists that are
  permutations of each other (the same identifiers, each as many times) give the same
  result with the same lookup.
\<close>

theorem writePricing_permutation:
  "mset xs = mset ys \<Longrightarrow> writePricing buf xs v g = writePricing buf ys v g"
  by (simp add: writePricing_def sort_perm [of xs ys])

theorem writePricing_permutation_witness:
  "mset [''m5.large'', ''c5.large'', ''c5.xlarge''] = mset [''c5.xlarge'', ''m5.large'', ''c5.large'']
   \<and> writePricing [] [''m5.large'', ''c5.large'', ''c5.xlarge''] ''v'' (priced [(''c5.large'', one)])
     = writePricing [] [''c5.xlarge'', ''m5.large'', ''c5.large''] ''v'' (priced [(''c5.large'', one)])"
proof -
  have h: "mset [''m5.large'', ''c5.large'', ''c5.xlarge''] = mset [''c5.xlarge'', ''m5.large'', ''c5.large'']"
    by (simp add: add.commute)
  from h writePricing_permutation [OF h] show ?thesis by blast
qed

subsection \<open>Lookup misses and malformed identifiers\<close>

text \<open>
  Claim C3. A well-formed identifier whose lookup fails is skipped silently: its
  iteration returns without an error and leaves the buffer, the counter and the
  previous family as they were; the result of the whole run is the result of the run
  on the input without that identifier; the identifier is not a row of the price
  table; and when all the identifiers are well formed the run ends without an error,
  its output being the rows of the price table written in order between the opening
  line and the closing lines.
\<close>

theorem lookup_miss_skipped:
  assumes "wellFormed x" and "g x = None"
  shows "iteration g st x = Inr st
    \<and> writePricing buf names v g = writePricing buf (removeAll x names) v g
    \<and> x \<notin> fst ` set (priceTable g names)
    \<and> ((\<forall>n\<in>set names. wellFormed n) \<longrightarrow>
         writePricing buf names v g =
           Inr (src (emitAll (start buf v) (priceTable g names)) @ closingLines))"
proof -
  have "iteration g st x = Inr st"
    using assms by (rule iteration_skip)
  moreover have "writePricing buf names v g = writePricing buf (removeAll x names) v g"
    using assms by (simp add: writePricing_def sort_removeAll loop_skip)
  moreover have "x \<notin> fst ` set (priceTable g names)"
    using assms(2) by (simp add: set_priceTable)
  moreover have "(\<forall>n\<in>set names. wellFormed n) \<longrightarrow>
         writePricing buf names v g =
           Inr (src (emitAll (start buf v) (priceTable g names)) @ closingLines)"
    by (simp add: writePricing_priceTable)
  ultimately show ?thesis by blast
qed

theorem lookup_miss_skipped_witness:
  "wellFormed ''x.y'' \<and> priced [(''a.b'', one)] ''x.y'' = None
   \<and> wellFormed ''a.b''
   \<and> iteration (priced [(''a.b'', one)]) (start [] ''v'') ''x.y'' = Inr (start [] ''v'')
   \<and> writePricing [] [''x.y'', ''a.b''] ''v'' (priced [(''a.b'', one)])
       = writePricing [] (removeAll ''x.y'' [''x.y'', ''a.b'']) ''v'' (priced [(''a.b'', one)])
   \<and> ''x.y'' \<notin> fst ` set (priceTable (priced [(''a.b'', one)]) [''x.y'', ''a.b''])
   \<and> writePricing [] [''x.y'', ''a.b''] ''v'' (priced [(''a.b'', one)])
       = Inr (src (emitAll (start [] ''v'') (priceTable (priced [(''a.b'', one)]) [''x.y'', ''a.b''])) @ closingLines)"
proof -
  have h1: "wellFormed ''x.y''" by code_simp
  have h2: "priced [(''a.b'', one)] ''x.y'' = None" by (simp add: priced_def)
  have h3: "\<forall>n\<in>set [''x.y'', ''a.b'']. wellFormed n" by code_simp
  have h4: "wellFormed ''a.b''" by code_simp
  from h1 h2 h3 h4
    lookup_miss_skipped [where x = "''x.y''" and g = "priced [(''a.b'', one)]"
      and st = "start [] ''v''" and buf = "[]" and names = "[''x.y'', ''a.b'']" and v = "''v''"]
  show ?thesis by blast
qed

text \<open>
  Claim C4. When an identifier of the input does not have exactly one dot, the run
  ends in \<^verbatim>\<open>log.Fatalf\<close>, whatever the lookup returns: the result is the error, with
  the message naming a malformed identifier of the input and its segments, and no
  output is returned. The identifier that is named is the first malformed one in
  sorted order.
\<close>

theorem malformed_aborts:
  assumes "n \<in> set names" and "count_list n (CHR ''.'') \<noteq> 1"
  shows "\<exists>m\<in>set names. count_list m (CHR ''.'') \<noteq> 1 \<and>
    writePricing buf names v g =
      Inl (Fatal (''parsing instance family '' @ m @ '', got '' @ fmtSlice (Split m (CHR ''.''))))"
proof -
  from assms have "n \<in> set (sort names)" and "\<not> wellFormed n"
    by (simp_all add: wellFormed_iff)
  then obtain m where "m \<in> set (sort names)" and "\<not> wellFormed m"
    and "loop g (start buf v) (sort names) =
      Inl (Fatal (''parsing instance family '' @ m @ '', got '' @ fmtSlice (Split m (CHR ''.''))))"
    using loop_fatal [of n "sort names" g "start buf v"] by blast
  then show ?thesis
    by (auto simp: writePricing_def wellFormed_iff)
qed

theorem malformed_aborts_witness:
  "''c5large'' \<in> set [''x.y.z'', ''c5large'', ''a.b''] \<and> count_list ''c5large'' (CHR ''.'') \<noteq> 1
   \<and> (\<exists>m\<in>set [''x.y.z'', ''c5large'', ''a.b'']. count_list m (CHR ''.'') \<noteq> 1 \<and>
        writePricing [] [''x.y.z'', ''c5large'', ''a.b''] ''v'' (priced [(''a.b'', one)]) =
          Inl (Fatal (''parsing instance family '' @ m @ '', got '' @ fmtSlice (Split m (CHR ''.'')))))
   \<and> writePricing [] [''x.y.z'', ''c5large'', ''a.b''] ''v'' (priced [(''a.b'', one)]) =
        Inl (Fatal ''parsing instance family c5large, got [c5large]'')
   \<and> writePricing [] [''x.y.z'', ''a.b''] ''v'' (priced [(''a.b'', one)]) =
        Inl (Fatal ''parsing instance family x.y.z, got [x y z]'')"
proof -
  have h1: "''c5large'' \<in> set [''x.y.z'', ''c5large'', ''a.b'']" by simp
  have h2: "count_list ''c5large'' (CHR ''.'') \<noteq> 1" by simp
  have e1: "writePricing [] [''x.y.z'', ''c5large'', ''a.b''] ''v'' (priced [(''a.b'', one)]) =
        Inl (Fatal ''parsing instance family c5large, got [c5large]'')"
    by code_simp
  have e2: "writePricing [] [''x.y.z'', ''a.b''] ''v'' (priced [(''a.b'', one)]) =
        Inl (Fatal ''parsing instance family x.y.z, got [x y z]'')"
    by code_simp
  from h1 h2 e1 e2
    malformed_aborts [OF h1 h2, of "[]" "''v''" "priced [(''a.b'', one)]"]
  show ?thesis by blast
qed

subsection \<open>The order of the entries\<close>

text \<open>
  Each row that is written extends the buffer by the entry of the row, with only the
  comment of its family or a line break around it.
\<close>

lemma newline_cases: "newline b = b \<or> newline b = b @ [NL]"
  by (simp add: newline_def)

lemma familyGroup_cases:
  "src (familyGroup st f) = src st
   \<or> src (familyGroup st f) = src st @ ''// '' @ f @ '' family'' @ [NL]
   \<or> src (familyGroup st f) = src st @ [NL] @ ''// '' @ f @ '' family'' @ [NL]"
  using newline_cases [of "src st"] by (auto simp: familyGroup_def)

lemma emit_chunk:
  "\<exists>c. src (writeEntry (familyGroup st (familyOf n)) n p) = src st @ c \<and> isChunk (n, p) c"
proof -
  let ?st1 = "familyGroup st (familyOf n)"
  obtain pre where pre: "src ?st1 = src st @ pre"
    and pre_cases: "pre = [] \<or> pre = ''// '' @ familyOf n @ '' family'' @ [NL]
      \<or> pre = [NL] @ ''// '' @ familyOf n @ '' family'' @ [NL]"
    using familyGroup_cases [of st "familyOf n"] by auto
  obtain post where post: "src (writeEntry ?st1 n p) = src ?st1 @ entry n p @ post"
    and post_cases: "post = [] \<or> post = [NL]"
    by (simp add: writeEntry_src)
  have "isChunk (n, p) (pre @ entry n p @ post)"
    using pre_cases post_cases by (auto simp: isChunk_def Let_def)
  moreover have "src (writeEntry ?st1 n p) = src st @ (pre @ entry n p @ post)"
    using pre post by simp
  ultimately show ?thesis by blast
qed

lemma emitAll_chunks:
  "\<exists>chunks. src (emitAll st rows) = src st @ concat chunks \<and> list_all2 isChunk rows chunks"
proof (induction rows arbitrary: st)
  case Nil
  show ?case by simp
next
  case (Cons row rows)
  obtain n p where row: "row = (n, p)" by (cases row)
  let ?st1 = "writeEntry (familyGroup st (familyOf n)) n p"
  obtain c where c: "src ?st1 = src st @ c" "isChunk (n, p) c"
    using emit_chunk by blast
  obtain chunks where chunks: "src (emitAll ?st1 rows) = src ?st1 @ concat chunks"
    "list_all2 isChunk rows chunks"
    using Cons.IH by blast
  have "src (emitAll st (row # rows)) = src st @ concat (c # chunks)"
    using c(1) chunks(1) by (simp add: row)
  moreover have "list_all2 isChunk (row # rows) (c # chunks)"
    using c(2) chunks(2) by (simp add: row)
  ultimately show ?case by blast
qed

lemma surviving_set: "set (surviving g ns) = {(n, p). n \<in> set ns \<and> g n = Some p}"
  by (induction ns) (auto split: option.splits)

lemma priceTable_set: "set (priceTable g names) = {(n, p). n \<in> set names \<and> g n = Some p}"
  by (simp add: priceTable_def surviving_set)

text \<open>
  Claim C2, as amended. When all the identifiers are well formed, the output is the
  buffer as it was, the opening line, one piece of text for each row of the price
  table in the order of the table, and the closing lines; the piece of a row is its
  entry, with nothing but the comment of its family and line breaks around it. The
  rows of the price table are the identifiers of the input whose lookup succeeds, and
  they are in ascending lexicographic order; the order is strict when the input holds
  no identifier twice. An identifier that is twice in the input is written twice, so
  the order is not strict for every input.
\<close>

theorem entries_ascending:
  assumes "\<forall>n\<in>set names. wellFormed n"
  shows "(\<exists>chunks. writePricing buf names v g =
        Inr (buf @ openingLine v @ concat chunks @ closingLines)
      \<and> list_all2 isChunk (priceTable g names) chunks)
    \<and> set (priceTable g names) = {(n, p). n \<in> set names \<and> g n = Some p}
    \<and> writePricing buf names v g =
      Inr (src (emitAll (start buf v) (priceTable g names)) @ closingLines)
    \<and> sorted (map fst (priceTable g names))
    \<and> (distinct names \<longrightarrow> sorted_wrt (<) (map fst (priceTable g names)))"
proof -
  have out: "writePricing buf names v g =
      Inr (src (emitAll (start buf v) (priceTable g names)) @ closingLines)"
    using assms by (rule writePricing_priceTable)
  obtain chunks where "src (emitAll (start buf v) (priceTable g names)) =
      src (start buf v) @ concat chunks" and "list_all2 isChunk (priceTable g names) chunks"
    using emitAll_chunks by blast
  then have "writePricing buf names v g =
        Inr (buf @ openingLine v @ concat chunks @ closingLines)
      \<and> list_all2 isChunk (priceTable g names) chunks"
    using out by (simp add: start_def)
  then have chunked: "\<exists>chunks. writePricing buf names v g =
        Inr (buf @ openingLine v @ concat chunks @ closingLines)
      \<and> list_all2 isChunk (priceTable g names) chunks"
    by (rule exI)
  have "sorted (map fst (priceTable g names))"
    by (simp add: priceTable_def map_fst_surviving sorted_wrt_filter)
  moreover have "distinct (map fst (priceTable g names))" if "distinct names"
    using that by (simp add: priceTable_def map_fst_surviving)
  ultimately show ?thesis
    using out chunked priceTable_set [of g names] by (simp add: strict_sorted_iff)
qed

theorem entries_ascending_witness:
  "wellFormed ''m5.large'' \<and> wellFormed ''c5.xlarge'' \<and> wellFormed ''c5.large''
   \<and> distinct [''m5.large'', ''c5.xlarge'', ''c5.large'']
   \<and> priceTable (priced [(''c5.large'', one), (''m5.large'', one)])
        [''m5.large'', ''c5.xlarge'', ''c5.large''] = [(''c5.large'', one), (''m5.large'', one)]
   \<and> (\<exists>chunks. writePricing [] [''m5.large'', ''c5.xlarge'', ''c5.large''] ''v''
          (priced [(''c5.large'', one), (''m5.large'', one)]) =
        Inr ([] @ openingLine ''v'' @ concat chunks @ closingLines)
      \<and> list_all2 isChunk [(''c5.large'', one), (''m5.large'', one)] chunks)
   \<and> writePricing [] [''m5.large'', ''c5.xlarge'', ''c5.large''] ''v''
        (priced [(''c5.large'', one), (''m5.large'', one)]) =
      Inr (''var v = map[string]float64{'' @ [NL]
           @ ''// c5 family'' @ [NL] @ [DQ] @ ''c5.large'' @ [DQ] @ '':1.000000, '' @ [NL]
           @ ''// m5 family'' @ [NL] @ [DQ] @ ''m5.large'' @ [DQ] @ '':1.000000, ''
           @ [NL] @ ''}'' @ [NL, NL])
   \<and> sorted_wrt (<) (map fst (priceTable (priced [(''c5.large'', one), (''m5.large'', one)])
        [''m5.large'', ''c5.xlarge'', ''c5.large'']))"
proof -
  let ?g = "priced [(''c5.large'', one), (''m5.large'', one)]"
  let ?names = "[''m5.large'', ''c5.xlarge'', ''c5.large'']"
  have h: "\<forall>n\<in>set ?names. wellFormed n" by code_simp
  have w: "wellFormed ''m5.large'' \<and> wellFormed ''c5.xlarge'' \<and> wellFormed ''c5.large''"
    using h by simp
  have d: "distinct ?names" by simp
  have t: "priceTable ?g ?names = [(''c5.large'', one), (''m5.large'', one)]"
    by code_simp
  have e: "writePricing [] ?names ''v'' ?g =
      Inr (''var v = map[string]float64{'' @ [NL]
           @ ''// c5 family'' @ [NL] @ [DQ] @ ''c5.large'' @ [DQ] @ '':1.000000, '' @ [NL]
           @ ''// m5 family'' @ [NL] @ [DQ] @ ''m5.large'' @ [DQ] @ '':1.000000, ''
           @ [NL] @ ''}'' @ [NL, NL])"
    by code_simp
  note r = entries_ascending [OF h, of "[]" "''v''" ?g]
  from r have "\<exists>chunks. writePricing [] ?names ''v'' ?g =
        Inr ([] @ openingLine ''v'' @ concat chunks @ closingLines)
      \<and> list_all2 isChunk [(''c5.large'', one), (''m5.large'', one)] chunks"
    unfolding t by blast
  moreover from r d have "sorted_wrt (<) (map fst (priceTable ?g ?names))" by blast
  ultimately show ?thesis using w d t e by blast
qed

text \<open>
  The form is one of the order in the text: the text of the same run with the entry
  of m5.large above the entry of c5.large is not of this form.
\<close>

lemma reversed_text_rejected:
  "\<not> (\<exists>chunks. ''var v = map[string]float64{'' @ [NL]
           @ ''// m5 family'' @ [NL] @ [DQ] @ ''m5.large'' @ [DQ] @ '':1.000000, '' @ [NL]
           @ ''// c5 family'' @ [NL] @ [DQ] @ ''c5.large'' @ [DQ] @ '':1.000000, ''
           @ [NL] @ ''}'' @ [NL, NL] = [] @ openingLine ''v'' @ concat chunks @ closingLines
      \<and> list_all2 isChunk [(''c5.large'', one), (''m5.large'', one)] chunks)"
proof -
  have f: "familyOf ''c5.large'' = ''c5''" "familyOf ''m5.large'' = ''m5''"
    by (simp_all add: familyOf_def Split_def)
  show ?thesis
    by (auto simp: list_all2_Cons1 isChunk_def Let_def f openingLine_def closingLines_def entry_def)
qed

theorem entries_strictly_ascending_counterexample:
  "writePricing [] [''a.b'', ''a.b''] ''v'' (priced [(''a.b'', one)]) =
     Inr (''var v = map[string]float64{'' @ [NL] @ ''// a family'' @ [NL]
          @ [DQ] @ ''a.b'' @ [DQ] @ '':1.000000, '' @ [DQ] @ ''a.b'' @ [DQ] @ '':1.000000, ''
          @ [NL] @ ''}'' @ [NL, NL])
   \<and> wellFormed ''a.b''
   \<and> map fst (priceTable (priced [(''a.b'', one)]) [''a.b'', ''a.b'']) = [''a.b'', ''a.b'']
   \<and> \<not> sorted_wrt (<) (map fst (priceTable (priced [(''a.b'', one)]) [''a.b'', ''a.b'']))"
proof -
  have "writePricing [] [''a.b'', ''a.b''] ''v'' (priced [(''a.b'', one)]) =
     Inr (''var v = map[string]float64{'' @ [NL] @ ''// a family'' @ [NL]
          @ [DQ] @ ''a.b'' @ [DQ] @ '':1.000000, '' @ [DQ] @ ''a.b'' @ [DQ] @ '':1.000000, ''
          @ [NL] @ ''}'' @ [NL, NL])"
    by code_simp
  moreover have "wellFormed ''a.b''" by code_simp
  moreover have t: "map fst (priceTable (priced [(''a.b'', one)]) [''a.b'', ''a.b'']) = [''a.b'', ''a.b'']"
    by code_simp
  moreover have "\<not> sorted_wrt (<) (map fst (priceTable (priced [(''a.b'', one)]) [''a.b'', ''a.b'']))"
    unfolding t by simp
  ultimately show ?thesis by blast
qed

subsection \<open>The line break before a family comment\<close>

text \<open>
  The buffer of a running \<open>writePricing\<close> is never empty, and after \<open>newline\<close> it
  ends with exactly one line break: it holds the opening line at the start, and every
  iteration that writes ends with the separator of an entry or with the break after it.
\<close>

lemma newline_eq:
  "newline b = (if b \<noteq> [] \<and> last b \<noteq> NL then b @ [NL] else b)"
  by (simp add: newline_def)

lemma endsWithOneNewline_snoc2: "endsWithOneNewline (b @ [c, NL]) \<longleftrightarrow> c \<noteq> NL"
  by (simp add: endsWithOneNewline_def)

lemma newline_after_text:
  "c \<noteq> NL \<Longrightarrow> endsWithOneNewline (newline (b @ [c]))"
  using endsWithOneNewline_snoc2 [of b c] by (simp add: newline_def)

lemma newline_after_break:
  "c \<noteq> NL \<Longrightarrow> endsWithOneNewline (newline (b @ [c, NL]))"
  using endsWithOneNewline_snoc2 [of b c] by (simp add: newline_def)

lemma openingLine_snoc:
  "buf @ openingLine v = (buf @ ''var '' @ v @ '' = map[string]float64'') @ [CHR ''{'', NL]"
  by (simp add: openingLine_def)

lemma start_ok:
  "src (start buf v) \<noteq> [] \<and> endsWithOneNewline (newline (src (start buf v)))"
proof -
  have "src (start buf v) = (buf @ ''var '' @ v @ '' = map[string]float64'') @ [CHR ''{'', NL]"
    by (simp add: start_def openingLine_snoc)
  then show ?thesis
    using newline_after_break [of "CHR ''{''" "buf @ ''var '' @ v @ '' = map[string]float64''"]
    by simp
qed

lemma entry_snoc: "entry n p = ([DQ] @ n @ [DQ] @ '':'' @ fmtFloat p @ '','') @ [CHR '' '']"
  by (simp add: entry_def)

lemma writeEntry_ok:
  "src (writeEntry st n p) \<noteq> [] \<and> endsWithOneNewline (newline (src (writeEntry st n p)))"
proof (cases "80 < lineLen st + length (entry n p)")
  case True
  then have "src (writeEntry st n p) =
      (src st @ [DQ] @ n @ [DQ] @ '':'' @ fmtFloat p @ '','') @ [CHR '' '', NL]"
    by (simp add: writeEntry_src entry_snoc)
  then show ?thesis
    using newline_after_break [of "CHR '' ''" "src st @ [DQ] @ n @ [DQ] @ '':'' @ fmtFloat p @ '',''"]
    by simp
next
  case False
  then have "src (writeEntry st n p) =
      (src st @ [DQ] @ n @ [DQ] @ '':'' @ fmtFloat p @ '','') @ [CHR '' '']"
    by (simp add: writeEntry_src entry_snoc)
  then show ?thesis
    using newline_after_text [of "CHR '' ''" "src st @ [DQ] @ n @ [DQ] @ '':'' @ fmtFloat p @ '',''"]
    by simp
qed

lemma iteration_ok:
  assumes "iteration g st n = Inr st'"
    and "src st \<noteq> [] \<and> endsWithOneNewline (newline (src st))"
  shows "src st' \<noteq> [] \<and> endsWithOneNewline (newline (src st'))"
proof (cases "g n")
  case None
  with assms show ?thesis
    by (simp add: iteration_def Let_def split: if_splits)
next
  case (Some p)
  with assms(1) have "st' = writeEntry (familyGroup st (Split n (CHR ''.'') ! 0)) n p"
    by (simp add: iteration_def Let_def split: if_splits)
  then show ?thesis by (simp add: writeEntry_ok)
qed

lemma loop_ok:
  "loop g st ns = Inr st' \<Longrightarrow>
   src st \<noteq> [] \<and> endsWithOneNewline (newline (src st)) \<Longrightarrow>
   src st' \<noteq> [] \<and> endsWithOneNewline (newline (src st'))"
proof (induction ns arbitrary: st)
  case Nil
  then show ?case by simp
next
  case (Cons n ns)
  from Cons.prems(1) obtain st1 where it: "iteration g st n = Inr st1"
    and rest: "loop g st1 ns = Inr st'"
    by (cases "iteration g st n") simp_all
  from iteration_ok [OF it Cons.prems(2)] Cons.IH [OF rest] show ?case by blast
qed

lemma familyGroup_new:
  "f \<noteq> previousFamily st \<Longrightarrow>
   familyGroup st f =
     \<lparr>src = newline (src st) @ ''// '' @ f @ '' family'' @ [NL], lineLen = 0, previousFamily = f\<rparr>"
  by (simp add: familyGroup_def)

text \<open>
  Claim C9. In any state that the loop of \<open>writePricing\<close> reaches, an entry whose
  family differs from the previous family is written as follows: \<open>newline\<close> adds a
  line break to the buffer if and only if the buffer is not empty and does not end
  with one, after which the buffer ends with exactly one line break; then the comment
  line of the family is written, and the entry is written with the counter at 0.
\<close>

theorem family_change_breaks_line:
  assumes "loop g (start buf v) pre = Inr st"
    and "wellFormed n" and "g n = Some p" and "familyOf n \<noteq> previousFamily st"
  shows "iteration g st n =
      Inr (writeEntry
        \<lparr>src = newline (src st) @ ''// '' @ familyOf n @ '' family'' @ [NL],
         lineLen = 0, previousFamily = familyOf n\<rparr> n p)
    \<and> newline (src st) = (if src st \<noteq> [] \<and> last (src st) \<noteq> NL then src st @ [NL] else src st)
    \<and> endsWithOneNewline (newline (src st))"
proof -
  have "iteration g st n = Inr (writeEntry (familyGroup st (familyOf n)) n p)"
    using assms(2,3) by (rule iteration_emit)
  moreover note familyGroup_new [OF assms(4)] newline_eq [of "src st"]
  moreover have "endsWithOneNewline (newline (src st))"
    using loop_ok [OF assms(1) start_ok] by simp
  ultimately show ?thesis by simp
qed

theorem family_change_breaks_line_witness:
  "loop (priced [(''a.b'', one), (''c.d'', one)]) (start [] ''v'') [''a.b''] =
     Inr \<lparr>src = ''var v = map[string]float64{'' @ [NL] @ ''// a family'' @ [NL]
                 @ [DQ] @ ''a.b'' @ [DQ] @ '':1.000000, '',
          lineLen = 16, previousFamily = ''a''\<rparr>
   \<and> wellFormed ''c.d'' \<and> priced [(''a.b'', one), (''c.d'', one)] ''c.d'' = Some one
   \<and> familyOf ''c.d'' = ''c''
   \<and> iteration (priced [(''a.b'', one), (''c.d'', one)])
       \<lparr>src = ''var v = map[string]float64{'' @ [NL] @ ''// a family'' @ [NL]
                 @ [DQ] @ ''a.b'' @ [DQ] @ '':1.000000, '',
          lineLen = 16, previousFamily = ''a''\<rparr> ''c.d'' =
     Inr (writeEntry
        \<lparr>src = ''var v = map[string]float64{'' @ [NL] @ ''// a family'' @ [NL]
                 @ [DQ] @ ''a.b'' @ [DQ] @ '':1.000000, '' @ [NL] @ ''// c family'' @ [NL],
         lineLen = 0, previousFamily = ''c''\<rparr> ''c.d'' one)
   \<and> endsWithOneNewline (''var v = map[string]float64{'' @ [NL] @ ''// a family'' @ [NL]
                 @ [DQ] @ ''a.b'' @ [DQ] @ '':1.000000, '' @ [NL])"
proof -
  let ?g = "priced [(''a.b'', one), (''c.d'', one)]"
  let ?st = "\<lparr>src = ''var v = map[string]float64{'' @ [NL] @ ''// a family'' @ [NL]
                 @ [DQ] @ ''a.b'' @ [DQ] @ '':1.000000, '',
          lineLen = 16, previousFamily = ''a''\<rparr>"
  have h1: "loop ?g (start [] ''v'') [''a.b''] = Inr ?st" by code_simp
  have h2: "wellFormed ''c.d''" by code_simp
  have h3: "?g ''c.d'' = Some one" by (simp add: priced_def)
  have f: "familyOf ''c.d'' = ''c''" by code_simp
  have h4: "familyOf ''c.d'' \<noteq> previousFamily ?st" unfolding f by simp
  have n: "newline (src ?st) = ''var v = map[string]float64{'' @ [NL] @ ''// a family'' @ [NL]
                 @ [DQ] @ ''a.b'' @ [DQ] @ '':1.000000, '' @ [NL]"
    by (simp add: newline_def)
  from n f h1 h2 h3 family_change_breaks_line [OF h1 h2 h3 h4] show ?thesis by simp
qed

subsection \<open>The comment above the first entry\<close>

text \<open>The loop only appends to the buffer.\<close>

lemma newline_extends: "\<exists>r. newline b = b @ r"
  by (simp add: newline_def)

lemma familyGroup_extends: "\<exists>r. src (familyGroup st f) = src st @ r"
  using newline_extends [of "src st"] by (auto simp: familyGroup_def)

lemma emit_extends: "\<exists>r. src (writeEntry (familyGroup st f) n p) = src st @ r"
  using familyGroup_extends [of st f] by (auto simp: writeEntry_src)

lemma emitAll_extends: "\<exists>r. src (emitAll st rows) = src st @ r"
proof (induction rows arbitrary: st)
  case Nil
  show ?case by simp
next
  case (Cons row rows)
  obtain n p where row: "row = (n, p)" by (cases row)
  obtain r1 where "src (writeEntry (familyGroup st (familyOf n)) n p) = src st @ r1"
    using emit_extends by blast
  moreover obtain r2 where "src (emitAll (writeEntry (familyGroup st (familyOf n)) n p) rows) =
      src (writeEntry (familyGroup st (familyOf n)) n p) @ r2"
    using Cons.IH by blast
  ultimately show ?case by (simp add: row)
qed

lemma newline_start: "newline (src (start buf v)) = buf @ openingLine v"
  by (simp add: newline_def start_def openingLine_def)

text \<open>
  Claim C8, as amended. \<open>previousFamily\<close> starts as the empty string. For every input
  of well-formed identifiers in which a lookup succeeds, when the family of the first
  identifier of the price table is not empty, the output holds, right after the
  opening line, the comment line of that family and then the entry of that identifier.
  A well-formed identifier can have the empty family (\<^verbatim>\<open>.x\<close> splits into the empty
  string and \<^verbatim>\<open>x\<close>), which equals the starting value: then the first entry is written
  with no comment above it.
\<close>

theorem first_entry_under_family_comment:
  assumes "\<forall>m\<in>set names. wellFormed m"
    and "priceTable g names = (n, p) # rows"
    and "familyOf n \<noteq> []"
  shows "\<exists>rest. writePricing buf names v g =
    Inr (buf @ openingLine v @ ''// '' @ familyOf n @ '' family'' @ [NL] @ entry n p @ rest)"
proof -
  let ?st1 = "familyGroup (start buf v) (familyOf n)"
  let ?st2 = "writeEntry ?st1 n p"
  have "familyOf n \<noteq> previousFamily (start buf v)"
    using assms(3) by (simp add: start_def)
  then have "src ?st1 = buf @ openingLine v @ ''// '' @ familyOf n @ '' family'' @ [NL]"
    by (simp add: familyGroup_new newline_start)
  then obtain w where st2: "src ?st2 =
      buf @ openingLine v @ ''// '' @ familyOf n @ '' family'' @ [NL] @ entry n p @ w"
    by (simp add: writeEntry_src)
  obtain r where "src (emitAll ?st2 rows) = src ?st2 @ r"
    using emitAll_extends by blast
  with st2 have "src (emitAll (start buf v) (priceTable g names)) @ closingLines =
      buf @ openingLine v @ ''// '' @ familyOf n @ '' family'' @ [NL] @ entry n p
        @ (w @ r @ closingLines)"
    by (simp add: assms(2))
  with writePricing_priceTable [OF assms(1), of buf v g]
  have "writePricing buf names v g =
      Inr (buf @ openingLine v @ ''// '' @ familyOf n @ '' family'' @ [NL] @ entry n p
        @ (w @ r @ closingLines))"
    by (simp only:)
  then show ?thesis by (rule exI)
qed

theorem first_entry_under_family_comment_witness:
  "wellFormed ''m5.large'' \<and> wellFormed ''c5.large''
   \<and> priceTable (priced [(''m5.large'', one)]) [''m5.large'', ''c5.large''] = [(''m5.large'', one)]
   \<and> familyOf ''m5.large'' = ''m5''
   \<and> (\<exists>rest. writePricing [] [''m5.large'', ''c5.large''] ''v'' (priced [(''m5.large'', one)]) =
        Inr ([] @ openingLine ''v'' @ ''// '' @ familyOf ''m5.large'' @ '' family'' @ [NL]
             @ entry ''m5.large'' one @ rest))"
proof -
  have h1: "\<forall>m\<in>set [''m5.large'', ''c5.large'']. wellFormed m" by code_simp
  have w: "wellFormed ''m5.large'' \<and> wellFormed ''c5.large''" using h1 by simp
  have h2: "priceTable (priced [(''m5.large'', one)]) [''m5.large'', ''c5.large''] = [(''m5.large'', one)]"
    by code_simp
  have f: "familyOf ''m5.large'' = ''m5''" by code_simp
  have h3: "familyOf ''m5.large'' \<noteq> []" unfolding f by simp
  from w h2 f first_entry_under_family_comment [OF h1 h2 h3, of "[]" "''v''"]
  show ?thesis by blast
qed

theorem first_entry_without_comment_counterexample:
  "wellFormed ''.x''
   \<and> familyOf ''.x'' = []
   \<and> priceTable (priced [(''.x'', one)]) [''.x''] = [(''.x'', one)]
   \<and> writePricing [] [''.x''] ''v'' (priced [(''.x'', one)]) =
       Inr (''var v = map[string]float64{'' @ [NL]
            @ [DQ] @ ''.x'' @ [DQ] @ '':1.000000, '' @ [NL] @ ''}'' @ [NL, NL])
   \<and> filter isFamilyComment (linesOf (''var v = map[string]float64{'' @ [NL]
            @ [DQ] @ ''.x'' @ [DQ] @ '':1.000000, '' @ [NL] @ ''}'' @ [NL, NL])) = []"
proof -
  have "wellFormed ''.x''" by code_simp
  moreover have "familyOf ''.x'' = []" by code_simp
  moreover have "priceTable (priced [(''.x'', one)]) [''.x''] = [(''.x'', one)]" by code_simp
  moreover have "writePricing [] [''.x''] ''v'' (priced [(''.x'', one)]) =
       Inr (''var v = map[string]float64{'' @ [NL]
            @ [DQ] @ ''.x'' @ [DQ] @ '':1.000000, '' @ [NL] @ ''}'' @ [NL, NL])"
    by code_simp
  moreover have "filter isFamilyComment (linesOf (''var v = map[string]float64{'' @ [NL]
            @ [DQ] @ ''.x'' @ [DQ] @ '':1.000000, '' @ [NL] @ ''}'' @ [NL, NL])) = []"
    by code_simp
  ultimately show ?thesis by blast
qed

subsection \<open>The example of the specification\<close>

text \<open>
  Claim C7. The prices 0.085, 0.17 and 0.096 are the floats \<^verbatim>\<open>0x3FB5C28F5C28F5C3\<close>,
  \<^verbatim>\<open>0x3FC5C28F5C28F5C3\<close> and \<^verbatim>\<open>0x3FB89374BC6A7EFA\<close>. With the variable name
  \<^verbatim>\<open>initialOnDemandPrices\<close>, and the identifiers given in any order, the output is the
  opening line, the comment of the family c5 above the entries of c5.large and
  c5.xlarge, the comment of the family m5 above the entry of m5.large, the prices
  written with six digits after the point, the line of the closing brace and an empty
  line.
\<close>

theorem end_to_end_example:
  "withinHalfUlp 0x3FB5C28F5C28F5C3 85 1000
   \<and> withinHalfUlp 0x3FC5C28F5C28F5C3 17 100
   \<and> withinHalfUlp 0x3FB89374BC6A7EFA 96 1000
   \<and> writePricing [] [''m5.large'', ''c5.xlarge'', ''c5.large''] ''initialOnDemandPrices''
       (priced [(''c5.large'', 0x3FB5C28F5C28F5C3), (''c5.xlarge'', 0x3FC5C28F5C28F5C3),
                (''m5.large'', 0x3FB89374BC6A7EFA)]) =
     Inr (''var initialOnDemandPrices = map[string]float64{'' @ [NL]
          @ ''// c5 family'' @ [NL]
          @ [DQ] @ ''c5.large'' @ [DQ] @ '':0.085000, '' @ [DQ] @ ''c5.xlarge'' @ [DQ] @ '':0.170000, '' @ [NL]
          @ ''// m5 family'' @ [NL]
          @ [DQ] @ ''m5.large'' @ [DQ] @ '':0.096000, '' @ [NL]
          @ ''}'' @ [NL]
          @ [NL])"
proof -
  have "withinHalfUlp 0x3FB5C28F5C28F5C3 85 1000" by code_simp
  moreover have "withinHalfUlp 0x3FC5C28F5C28F5C3 17 100" by code_simp
  moreover have "withinHalfUlp 0x3FB89374BC6A7EFA 96 1000" by code_simp
  moreover have "writePricing [] [''m5.large'', ''c5.xlarge'', ''c5.large''] ''initialOnDemandPrices''
       (priced [(''c5.large'', 0x3FB5C28F5C28F5C3), (''c5.xlarge'', 0x3FC5C28F5C28F5C3),
                (''m5.large'', 0x3FB89374BC6A7EFA)]) =
     Inr (''var initialOnDemandPrices = map[string]float64{'' @ [NL]
          @ ''// c5 family'' @ [NL]
          @ [DQ] @ ''c5.large'' @ [DQ] @ '':0.085000, '' @ [DQ] @ ''c5.xlarge'' @ [DQ] @ '':0.170000, '' @ [NL]
          @ ''// m5 family'' @ [NL]
          @ [DQ] @ ''m5.large'' @ [DQ] @ '':0.096000, '' @ [NL]
          @ ''}'' @ [NL]
          @ [NL])"
    by code_simp
  ultimately show ?thesis by blast
qed

subsection \<open>The width of the lines\<close>

text \<open>Splitting a text, and the lines of a text that is put together from two.\<close>

lemma splitFrom_nonempty: "splitFrom sep seg s \<noteq> []"
  by (induction s arbitrary: seg) auto

lemma splitFrom_seg:
  "splitFrom sep seg s = (seg @ hd (splitFrom sep [] s)) # tl (splitFrom sep [] s)"
proof (induction s arbitrary: seg)
  case Nil
  show ?case by simp
next
  case (Cons c cs)
  show ?case
  proof (cases "c = sep")
    case True
    then show ?thesis by simp
  next
    case False
    have "splitFrom sep (seg @ [c]) cs =
        ((seg @ [c]) @ hd (splitFrom sep [] cs)) # tl (splitFrom sep [] cs)"
      by (rule Cons.IH)
    moreover have "splitFrom sep [c] cs = ([c] @ hd (splitFrom sep [] cs)) # tl (splitFrom sep [] cs)"
      by (rule Cons.IH)
    ultimately show ?thesis using False by simp
  qed
qed

lemma splitFrom_break:
  "splitFrom sep seg (a @ sep # b) = splitFrom sep seg a @ splitFrom sep [] b"
  by (induction a arbitrary: seg) auto

lemma splitFrom_append:
  "splitFrom sep seg (a @ b) =
     butlast (splitFrom sep seg a)
     @ [last (splitFrom sep seg a) @ hd (splitFrom sep [] b)] @ tl (splitFrom sep [] b)"
proof (induction a arbitrary: seg)
  case Nil
  show ?case using splitFrom_seg [of sep seg b] by simp
next
  case (Cons c a)
  show ?case
  proof (cases "c = sep")
    case True
    then show ?thesis using Cons.IH [of "[]"] by (simp add: splitFrom_nonempty)
  next
    case False
    then show ?thesis using Cons.IH [of "seg @ [c]"] by simp
  qed
qed

lemma splitFrom_length:
  "l \<in> set (splitFrom sep seg s) \<Longrightarrow> length l \<le> length seg + length s"
proof (induction s arbitrary: seg)
  case Nil
  then show ?case by simp
next
  case (Cons c cs)
  show ?case
  proof (cases "c = sep")
    case True
    with Cons.prems have "l = seg \<or> l \<in> set (splitFrom sep [] cs)" by simp
    then show ?thesis using Cons.IH [of "[]"] by auto
  next
    case False
    with Cons.prems have "l \<in> set (splitFrom sep (seg @ [c]) cs)" by simp
    then show ?thesis using Cons.IH [of "seg @ [c]"] by auto
  qed
qed

lemma splitFrom_plain: "sep \<notin> set s \<Longrightarrow> splitFrom sep seg s = [seg @ s]"
  by (induction s arbitrary: seg) auto

lemma linesOf_nonempty: "linesOf s \<noteq> []"
  by (simp add: linesOf_def Split_def splitFrom_nonempty)

lemma linesOf_break: "linesOf (a @ NL # b) = linesOf a @ linesOf b"
  by (simp add: linesOf_def Split_def splitFrom_break)

lemma linesOf_plain: "NL \<notin> set s \<Longrightarrow> linesOf s = [s]"
  by (simp add: linesOf_def Split_def splitFrom_plain)

lemma linesOf_append:
  "linesOf (a @ b) =
     butlast (linesOf a) @ [last (linesOf a) @ hd (linesOf b)] @ tl (linesOf b)"
  by (simp add: linesOf_def Split_def splitFrom_append [of NL "[]" a b])

lemma line_length: "l \<in> set (linesOf s) \<Longrightarrow> length l \<le> length s"
  using splitFrom_length [of l NL "[]" s] by (simp add: linesOf_def Split_def)

lemma hd_line_length: "length (hd (linesOf s)) \<le> length s"
  using line_length [of "hd (linesOf s)" s] linesOf_nonempty [of s] by simp

text \<open>Appending a text to a buffer: the lines stay within a bound that the last line
  of the buffer leaves room for, and the last line grows by the text at most.\<close>

lemma lines_append:
  assumes "\<forall>l\<in>set (linesOf a). length l \<le> B" and "lastLineLen a + length b \<le> B"
  shows "\<forall>l\<in>set (linesOf (a @ b)). length l \<le> B"
proof
  fix l
  assume "l \<in> set (linesOf (a @ b))"
  then consider "l \<in> set (butlast (linesOf a))" | "l = last (linesOf a) @ hd (linesOf b)"
    | "l \<in> set (tl (linesOf b))"
    by (auto simp: linesOf_append [of a b])
  then show "length l \<le> B"
  proof cases
    case 1
    then have "l \<in> set (linesOf a)" by (rule in_set_butlastD)
    with assms(1) show ?thesis by simp
  next
    case 2
    then have "length l = lastLineLen a + length (hd (linesOf b))"
      by (simp add: lastLineLen_def)
    with hd_line_length [of b] assms(2) show ?thesis by simp
  next
    case 3
    then have "l \<in> set (linesOf b)" by (rule list.set_sel(2) [rotated]) (rule linesOf_nonempty)
    then have "length l \<le> length b" by (rule line_length)
    with assms(2) show ?thesis by simp
  qed
qed

lemma lastLineLen_append: "lastLineLen (a @ b) \<le> lastLineLen a + length b"
proof (cases "tl (linesOf b) = []")
  case True
  then have "last (linesOf (a @ b)) = last (linesOf a) @ hd (linesOf b)"
    by (simp add: linesOf_append [of a b])
  then show ?thesis using hd_line_length [of b] by (simp add: lastLineLen_def)
next
  case False
  then have "last (linesOf (a @ b)) = last (tl (linesOf b))"
    by (simp add: linesOf_append [of a b])
  moreover have "last (tl (linesOf b)) \<in> set (linesOf b)"
    using False by (metis last_in_set list.set_sel(2) linesOf_nonempty)
  ultimately show ?thesis using line_length [of "last (linesOf (a @ b))" b]
    by (simp add: lastLineLen_def)
qed

lemma linesOf_Nil: "linesOf [] = [[]]"
  by (simp add: linesOf_def Split_def)

lemma linesOf_snoc_break: "linesOf (a @ [NL]) = linesOf a @ [[]]"
  using linesOf_break [of a "[]"] by (simp add: linesOf_Nil)

lemma lines_snoc_break:
  "\<forall>l\<in>set (linesOf a). length l \<le> B \<Longrightarrow> \<forall>l\<in>set (linesOf (a @ [NL])). length l \<le> B"
  by (simp add: linesOf_snoc_break)

lemma lastLineLen_snoc_break: "lastLineLen (a @ [NL]) = 0"
  by (simp add: lastLineLen_def linesOf_snoc_break)

lemma lastLineLen_Nil: "lastLineLen [] = 0"
  by (simp add: lastLineLen_def linesOf_Nil)

text \<open>Every step of the loop keeps the invariant of the line widths.\<close>

lemma newline_lines:
  assumes "base \<noteq> []" and "last base = NL" and "\<forall>l\<in>set (linesOf added). length l \<le> B"
  shows "\<exists>na. newline (base @ added) = base @ na
    \<and> (\<forall>l\<in>set (linesOf na). length l \<le> B) \<and> lastLineLen na = 0"
proof (cases "added = []")
  case True
  with assms have "newline (base @ added) = base @ []"
    by (simp add: newline_def)
  moreover have "\<forall>l\<in>set (linesOf []). length l \<le> B" by (simp add: linesOf_Nil)
  ultimately show ?thesis using lastLineLen_Nil by blast
next
  case False
  show ?thesis
  proof (cases "last added = NL")
    case True
    with False have "newline (base @ added) = base @ added"
      by (simp add: newline_def)
    moreover from True False have "added = butlast added @ [NL]"
      by (metis append_butlast_last_id)
    then have "lastLineLen added = 0"
      by (metis lastLineLen_snoc_break)
    ultimately show ?thesis using assms(3) by blast
  next
    case nobreak: False
    with False have "newline (base @ added) = base @ (added @ [NL])"
      by (simp add: newline_def)
    then show ?thesis
      using lines_snoc_break [OF assms(3)] lastLineLen_snoc_break [of added] by blast
  qed
qed

lemma familyGroup_lines:
  assumes "base \<noteq> []" and "last base = NL"
    and "lineInvariant base B st" and "length f + 10 \<le> B"
  shows "lineInvariant base B (familyGroup st f)"
proof (cases "f = previousFamily st")
  case True
  with assms(3) show ?thesis by (simp add: familyGroup_def)
next
  case False
  from assms(3) obtain added where src: "src st = base @ added"
    and lines: "\<forall>l\<in>set (linesOf added). length l \<le> B"
    by (auto simp: lineInvariant_def)
  from newline_lines [OF assms(1,2) lines] obtain na
    where na: "newline (base @ added) = base @ na"
      and nlines: "\<forall>l\<in>set (linesOf na). length l \<le> B" and nlast: "lastLineLen na = 0"
    by blast
  let ?c = "''// '' @ f @ '' family''"
  have "lastLineLen na + length ?c \<le> B" using nlast assms(4) by simp
  from lines_append [OF nlines this] have "\<forall>l\<in>set (linesOf (na @ ?c)). length l \<le> B" .
  then have "\<forall>l\<in>set (linesOf ((na @ ?c) @ [NL])). length l \<le> B"
    by (rule lines_snoc_break)
  moreover have "lastLineLen ((na @ ?c) @ [NL]) = 0"
    by (rule lastLineLen_snoc_break)
  moreover have "src (familyGroup st f) = base @ ((na @ ?c) @ [NL])"
    using False src na by (simp add: familyGroup_def)
  moreover have "lineLen (familyGroup st f) = 0"
    using False by (simp add: familyGroup_def)
  ultimately show ?thesis
    unfolding lineInvariant_def by (intro exI [of _ "(na @ ?c) @ [NL]"]) simp
qed

lemma writeEntry_lines:
  assumes "lineInvariant base B st" and "80 + length (entry n p) \<le> B"
  shows "lineInvariant base B (writeEntry st n p)"
proof -
  from assms(1) obtain added where src: "src st = base @ added"
    and lines: "\<forall>l\<in>set (linesOf added). length l \<le> B"
    and lst: "lastLineLen added \<le> lineLen st" and cnt: "lineLen st \<le> 80"
    by (auto simp: lineInvariant_def)
  let ?e = "entry n p"
  have "lastLineLen added + length ?e \<le> B" using lst cnt assms(2) by simp
  from lines_append [OF lines this] have elines: "\<forall>l\<in>set (linesOf (added @ ?e)). length l \<le> B" .
  have elast: "lastLineLen (added @ ?e) \<le> lineLen st + length ?e"
    using lastLineLen_append [of added ?e] lst by simp
  show ?thesis
  proof (cases "80 < lineLen st + length ?e")
    case True
    then have "src (writeEntry st n p) = base @ ((added @ ?e) @ [NL])"
      and "lineLen (writeEntry st n p) = 0"
      using src by (simp_all add: writeEntry_def Let_def)
    moreover have "\<forall>l\<in>set (linesOf ((added @ ?e) @ [NL])). length l \<le> B"
      using elines by (rule lines_snoc_break)
    moreover have "lastLineLen ((added @ ?e) @ [NL]) = 0"
      by (rule lastLineLen_snoc_break)
    ultimately show ?thesis
      unfolding lineInvariant_def by (intro exI [of _ "(added @ ?e) @ [NL]"]) simp
  next
    case False
    then have "src (writeEntry st n p) = base @ (added @ ?e)"
      and "lineLen (writeEntry st n p) = lineLen st + length ?e"
      using src by (simp_all add: writeEntry_def Let_def)
    then show ?thesis
      unfolding lineInvariant_def using elines elast False
      by (intro exI [of _ "added @ ?e"]) simp
  qed
qed

lemma familyOf_length: "length (familyOf n) \<le> length n"
proof -
  have "hd (splitFrom (CHR ''.'') [] n) \<in> set (splitFrom (CHR ''.'') [] n)"
    by (simp add: splitFrom_nonempty)
  then have "length (hd (splitFrom (CHR ''.'') [] n)) \<le> length n"
    using splitFrom_length [of _ "CHR ''.''" "[]" n] by fastforce
  then show ?thesis
    by (simp add: familyOf_def Split_def hd_conv_nth splitFrom_nonempty)
qed

lemma entry_length: "length (entry n p) = length n + length (fmtFloat p) + 5"
  by (simp add: entry_def)

lemma iteration_lines:
  assumes "base \<noteq> []" and "last base = NL"
    and "lineInvariant base (80 + w) st"
    and "iteration g st n = Inr st'"
    and "\<forall>p. g n = Some p \<longrightarrow> length (entry n p) \<le> w"
  shows "lineInvariant base (80 + w) st'"
proof (cases "g n")
  case None
  with assms(3,4) show ?thesis
    by (simp add: iteration_def Let_def split: if_splits)
next
  case (Some p)
  with assms(4) have st': "st' = writeEntry (familyGroup st (familyOf n)) n p"
    by (simp add: iteration_def familyOf_def Let_def split: if_splits)
  from Some assms(5) have w: "length (entry n p) \<le> w" by simp
  then have "length (familyOf n) + 10 \<le> 80 + w"
    using familyOf_length [of n] by (simp add: entry_length)
  from familyGroup_lines [OF assms(1,2,3) this]
  have "lineInvariant base (80 + w) (familyGroup st (familyOf n))" .
  then show ?thesis unfolding st' using w by (intro writeEntry_lines) simp_all
qed

lemma loop_lines:
  assumes "base \<noteq> []" and "last base = NL"
  shows "lineInvariant base (80 + w) st \<Longrightarrow> loop g st ns = Inr st' \<Longrightarrow>
    \<forall>n\<in>set ns. \<forall>p. g n = Some p \<longrightarrow> length (entry n p) \<le> w \<Longrightarrow>
    lineInvariant base (80 + w) st'"
proof (induction ns arbitrary: st)
  case Nil
  then show ?case by simp
next
  case (Cons n ns)
  from Cons.prems(2) obtain st1 where it: "iteration g st n = Inr st1"
    and rest: "loop g st1 ns = Inr st'"
    by (cases "iteration g st n") simp_all
  have "\<forall>p. g n = Some p \<longrightarrow> length (entry n p) \<le> w" using Cons.prems(3) by simp
  from iteration_lines [OF assms Cons.prems(1) it this]
  have "lineInvariant base (80 + w) st1" .
  moreover have "\<forall>n\<in>set ns. \<forall>p. g n = Some p \<longrightarrow> length (entry n p) \<le> w"
    using Cons.prems(3) by simp
  ultimately show ?case using rest by (intro Cons.IH)
qed

lemma start_lines: "lineInvariant (buf @ openingLine v) B (start buf v)"
  unfolding lineInvariant_def
  by (intro exI [of _ "[]"]) (simp add: start_def linesOf_Nil lastLineLen_Nil)

lemma linesOf_closing: "linesOf [CHR ''}'', NL, NL] = [''}'', [], []]"
  by (simp add: linesOf_def Split_def)

text \<open>
  Claim C6, as amended. When every entry that the run writes is at most \<open>w\<close> bytes
  wide, every line of the output after the opening line is at most \<open>80 + w\<close> bytes
  long: the counter is compared with 80 after each entry, so that a line is broken as
  soon as it is longer than 80. The opening line is as long as the variable name makes
  it, and is not covered: with a name of 80 bytes it has 106 bytes, while an entry
  has 16.
\<close>

theorem line_width_bound:
  assumes "\<forall>n\<in>set names. \<forall>p. g n = Some p \<longrightarrow> length (entry n p) \<le> w"
    and "writePricing buf names v g = Inr out"
  shows "\<exists>rest. out = buf @ openingLine v @ rest
    \<and> (\<forall>l\<in>set (linesOf rest). length l \<le> 80 + w)"
proof -
  from assms(2) obtain st where lp: "loop g (start buf v) (sort names) = Inr st"
    and out: "out = src st @ closingLines"
    by (auto simp: writePricing_def split: sum.splits)
  have base: "buf @ openingLine v \<noteq> []" "last (buf @ openingLine v) = NL"
    by (simp_all add: openingLine_def)
  have "\<forall>n\<in>set (sort names). \<forall>p. g n = Some p \<longrightarrow> length (entry n p) \<le> w"
    using assms(1) by simp
  from loop_lines [OF base start_lines lp this]
  obtain added where src: "src st = (buf @ openingLine v) @ added"
    and lines: "\<forall>l\<in>set (linesOf added). length l \<le> 80 + w"
    by (auto simp: lineInvariant_def)
  have "linesOf (added @ closingLines) = linesOf added @ [''}'', [], []]"
    using linesOf_break [of added "''}'' @ [NL, NL]"] by (simp add: closingLines_def linesOf_closing)
  with lines have "\<forall>l\<in>set (linesOf (added @ closingLines)). length l \<le> 80 + w"
    by auto
  moreover have "out = buf @ openingLine v @ (added @ closingLines)"
    using out src by simp
  ultimately show ?thesis by blast
qed

theorem line_width_bound_witness:
  "length (entry ''a.b'' one) \<le> 16
   \<and> writePricing [] [''a.b''] ''v'' (priced [(''a.b'', one)]) =
       Inr (''var v = map[string]float64{'' @ [NL] @ ''// a family'' @ [NL]
            @ [DQ] @ ''a.b'' @ [DQ] @ '':1.000000, '' @ [NL] @ ''}'' @ [NL, NL])
   \<and> (\<exists>rest. ''var v = map[string]float64{'' @ [NL] @ ''// a family'' @ [NL]
            @ [DQ] @ ''a.b'' @ [DQ] @ '':1.000000, '' @ [NL] @ ''}'' @ [NL, NL]
          = [] @ openingLine ''v'' @ rest
        \<and> (\<forall>l\<in>set (linesOf rest). length l \<le> 80 + 16))"
proof -
  have e: "length (entry ''a.b'' one) \<le> 16" by code_simp
  have h1: "\<forall>n\<in>set [''a.b'']. \<forall>p. priced [(''a.b'', one)] n = Some p \<longrightarrow> length (entry n p) \<le> 16"
    using e by (simp add: priced_def)
  have h2: "writePricing [] [''a.b''] ''v'' (priced [(''a.b'', one)]) =
       Inr (''var v = map[string]float64{'' @ [NL] @ ''// a family'' @ [NL]
            @ [DQ] @ ''a.b'' @ [DQ] @ '':1.000000, '' @ [NL] @ ''}'' @ [NL, NL])"
    by code_simp
  from e h2 line_width_bound [OF h1 h2] show ?thesis by blast
qed

theorem opening_line_width_counterexample:
  "writePricing [] [''a.b''] (replicate 80 (CHR ''v'')) (priced [(''a.b'', one)]) =
     Inr (''var '' @ replicate 80 (CHR ''v'') @ '' = map[string]float64{'' @ [NL]
          @ ''// a family'' @ [NL]
          @ [DQ] @ ''a.b'' @ [DQ] @ '':1.000000, '' @ [NL] @ ''}'' @ [NL, NL])
   \<and> linesOf (''var '' @ replicate 80 (CHR ''v'') @ '' = map[string]float64{'' @ [NL]
          @ ''// a family'' @ [NL]
          @ [DQ] @ ''a.b'' @ [DQ] @ '':1.000000, '' @ [NL] @ ''}'' @ [NL, NL]) ! 0
       = ''var '' @ replicate 80 (CHR ''v'') @ '' = map[string]float64{''
   \<and> length (''var '' @ replicate 80 (CHR ''v'') @ '' = map[string]float64{'') = 106
   \<and> 80 + length (entry ''a.b'' one) = 96"
proof -
  have "writePricing [] [''a.b''] (replicate 80 (CHR ''v'')) (priced [(''a.b'', one)]) =
     Inr (''var '' @ replicate 80 (CHR ''v'') @ '' = map[string]float64{'' @ [NL]
          @ ''// a family'' @ [NL]
          @ [DQ] @ ''a.b'' @ [DQ] @ '':1.000000, '' @ [NL] @ ''}'' @ [NL, NL])"
    by code_simp
  moreover have "linesOf (''var '' @ replicate 80 (CHR ''v'') @ '' = map[string]float64{'' @ [NL]
          @ ''// a family'' @ [NL]
          @ [DQ] @ ''a.b'' @ [DQ] @ '':1.000000, '' @ [NL] @ ''}'' @ [NL, NL]) ! 0
       = ''var '' @ replicate 80 (CHR ''v'') @ '' = map[string]float64{''"
    by code_simp
  moreover have "length (''var '' @ replicate 80 (CHR ''v'') @ '' = map[string]float64{'') = 106"
    by simp
  moreover have "80 + length (entry ''a.b'' one) = 96" by code_simp
  ultimately show ?thesis by blast
qed

subsection \<open>Family comments\<close>

text \<open>No entry holds a line break unless its identifier does: \<^verbatim>\<open>%f\<close> writes digits, a
  point and a sign, or one of three words.\<close>

lemma digits_chars: "set (digits n) \<subseteq> set ''0123456789''"
proof (induction n rule: digits.induct)
  case (1 n)
  have nth: "''0123456789'' ! k \<in> set ''0123456789''" if "k < 10" for k
    using that by (intro nth_mem) simp
  show ?case
  proof (cases "n < 10")
    case True
    then show ?thesis using nth [of n] by (subst digits.simps) simp
  next
    case False
    then have "set (digits (n div 10)) \<subseteq> set ''0123456789''" by (rule "1.IH")
    moreover have "''0123456789'' ! (n mod 10) \<in> set ''0123456789''"
      by (rule nth) simp
    ultimately show ?thesis using False by (subst digits.simps) simp
  qed
qed

lemma digits_no_break: "NL \<notin> set (digits n)"
  using digits_chars [of n] by auto

lemma fmtFloat_no_break: "NL \<notin> set (fmtFloat v)"
  by (simp add: fmtFloat_def Let_def digits_no_break)

lemma entry_no_break: "NL \<notin> set n \<Longrightarrow> NL \<notin> set (entry n p)"
  by (simp add: entry_def fmtFloat_no_break)


lemma entry_not_comment: "\<not> isFamilyComment (entry n p @ s)"
  by (simp add: isFamilyComment_def entry_def)

lemma entry_nonempty: "entry n p \<noteq> []"
  by (simp add: entry_def)

lemma last_entry: "last (entry n p) = CHR '' ''"
  by (simp add: entry_def)

lemma writeEntry_lineLen:
  "lineLen (writeEntry st n p) =
     (if 80 < lineLen st + length (entry n p) then 0 else lineLen st + length (entry n p))"
  by (simp add: writeEntry_def Let_def)

lemma writeEntry_previousFamily: "previousFamily (writeEntry st n p) = previousFamily st"
  by (simp add: writeEntry_def Let_def)

lemma familyGroup_same: "f = previousFamily st \<Longrightarrow> familyGroup st f = st"
  by (simp add: familyGroup_def)

lemma newline_writeEntry: "newline (src (writeEntry st n p)) = src st @ entry n p @ [NL]"
  by (simp add: writeEntry_src newline_def entry_nonempty last_entry)

lemma emit3:
  assumes fam: "familyOf ''a.large'' = ''a''" "familyOf ''a.small'' = ''a''" "familyOf ''b.small'' = ''b''"
  shows "src (emitAll (start buf v) [(''a.large'', p2), (''a.small'', p1), (''b.small'', p3)])
      = buf @ openingLine v @ ''// a family'' @ [NL]
        @ entry ''a.large'' p2 @ (if 80 < length (entry ''a.large'' p2) then [NL] else [])
        @ entry ''a.small'' p1 @ [NL]
        @ ''// b family'' @ [NL]
        @ entry ''b.small'' p3 @ (if 80 < length (entry ''b.small'' p3) then [NL] else [])"
proof -
  let ?st1 = "familyGroup (start buf v) ''a''"
  let ?st2 = "writeEntry ?st1 ''a.large'' p2"
  let ?st4 = "writeEntry ?st2 ''a.small'' p1"
  let ?st5 = "familyGroup ?st4 ''b''"
  let ?st6 = "writeEntry ?st5 ''b.small'' p3"
  have "''a'' \<noteq> previousFamily (start buf v)" by (simp add: start_def)
  then have st1: "?st1 = \<lparr>src = buf @ openingLine v @ ''// a family'' @ [NL], lineLen = 0,
      previousFamily = ''a''\<rparr>"
    by (simp add: familyGroup_new newline_start)
  have src2: "src ?st2 = buf @ openingLine v @ ''// a family'' @ [NL]
        @ entry ''a.large'' p2 @ (if 80 < length (entry ''a.large'' p2) then [NL] else [])"
    unfolding st1 by (simp add: writeEntry_src)
  have "previousFamily ?st2 = ''a''"
    unfolding st1 by (simp add: writeEntry_previousFamily)
  then have same: "familyGroup ?st2 ''a'' = ?st2"
    by (simp add: familyGroup_same)
  have "previousFamily ?st4 = ''a''"
    unfolding st1 by (simp add: writeEntry_previousFamily)
  then have "''b'' \<noteq> previousFamily ?st4" by simp
  then have "?st5 = \<lparr>src = newline (src ?st4) @ ''// '' @ ''b'' @ '' family'' @ [NL], lineLen = 0,
      previousFamily = ''b''\<rparr>"
    by (rule familyGroup_new)
  then have st5: "?st5 = \<lparr>src = newline (src ?st4) @ ''// b family'' @ [NL], lineLen = 0,
      previousFamily = ''b''\<rparr>"
    by (simp only: append_Cons append_Nil)
  have "src ?st6 = src ?st2 @ entry ''a.small'' p1 @ [NL] @ ''// b family'' @ [NL]
     @ entry ''b.small'' p3 @ (if 80 < length (entry ''b.small'' p3) then [NL] else [])"
    unfolding st5 newline_writeEntry by (simp add: writeEntry_src)
  moreover have "emitAll (start buf v) [(''a.large'', p2), (''a.small'', p1), (''b.small'', p3)] = ?st6"
    by (simp only: emitAll.simps fam same)
  ultimately show ?thesis by (simp only: src2 append_assoc)
qed

lemma comment_lines:
  assumes nb: "NL \<notin> set e1" "NL \<notin> set e2" "NL \<notin> set e3"
    and nc: "\<And>s. \<not> isFamilyComment (e1 @ s)" "\<And>s. \<not> isFamilyComment (e2 @ s)"
      "\<And>s. \<not> isFamilyComment (e3 @ s)"
    and w: "w1 = [NL] \<or> w1 = []" "w3 = [NL] \<or> w3 = []"
  shows "filter isFamilyComment (linesOf (''// a family'' @ [NL] @ e2 @ w1 @ e1 @ [NL]
      @ ''// b family'' @ [NL] @ e3 @ w3 @ closingLines)) = [''// a family'', ''// b family'']"
proof -
  let ?rest = "''// a family'' @ [NL] @ e2 @ w1 @ e1 @ [NL]
      @ ''// b family'' @ [NL] @ e3 @ w3 @ closingLines"
  have "?rest = ''// a family'' @ NL # ((e2 @ w1 @ e1) @ NL # (''// b family'' @ NL
      # ((e3 @ w3) @ NL # (''}'' @ NL # ([] @ NL # [])))))"
    by (simp add: closingLines_def)
  then have split: "linesOf ?rest = linesOf ''// a family'' @ linesOf (e2 @ w1 @ e1)
      @ linesOf ''// b family'' @ linesOf (e3 @ w3) @ linesOf ''}'' @ linesOf [] @ linesOf []"
    by (simp only: linesOf_break)
  have plain: "linesOf ''// a family'' = [''// a family'']" "linesOf ''// b family'' = [''// b family'']"
    "linesOf ''}'' = [''}'']"
    by (simp_all add: linesOf_plain)
  have cm: "isFamilyComment ''// a family''" "isFamilyComment ''// b family''"
    "\<not> isFamilyComment ''}''" "\<not> isFamilyComment []"
    by (simp_all add: isFamilyComment_def)
  have n1: "\<not> isFamilyComment e1" and n2: "\<not> isFamilyComment e2" and n3: "\<not> isFamilyComment e3"
    using nc(1) [of "[]"] nc(2) [of "[]"] nc(3) [of "[]"] by simp_all
  have mid: "filter isFamilyComment (linesOf (e2 @ w1 @ e1)) = []"
  proof (cases "w1 = []")
    case True
    then have "linesOf (e2 @ w1 @ e1) = [e2 @ e1]" using nb by (simp add: linesOf_plain)
    then show ?thesis using nc(2) by simp
  next
    case False
    with w(1) have "e2 @ w1 @ e1 = e2 @ NL # e1" by simp
    then have "linesOf (e2 @ w1 @ e1) = [e2, e1]"
      using nb by (simp only: linesOf_break) (simp add: linesOf_plain)
    then show ?thesis using n1 n2 by simp
  qed
  have lst: "filter isFamilyComment (linesOf (e3 @ w3)) = []"
  proof (cases "w3 = []")
    case True
    then have "linesOf (e3 @ w3) = [e3]" using nb by (simp add: linesOf_plain)
    then show ?thesis using n3 by simp
  next
    case False
    with w(2) have "e3 @ w3 = e3 @ NL # []" by simp
    then have "linesOf (e3 @ w3) = [e3, []]"
      using nb by (simp only: linesOf_break) (simp add: linesOf_plain linesOf_Nil)
    then show ?thesis using n3 cm(4) by simp
  qed
  show ?thesis
    unfolding split by (simp only: filter_append mid lst plain linesOf_Nil) (simp add: cm)
qed

text \<open>
  Claim C5. For the identifiers a.small, a.large and b.small, in this order, with all
  three lookups succeeding, the output is: the opening line; the comment of the family
  a; the entries of a.large and a.small; the comment of the family b on a line of its
  own; the entry of b.small; the closing lines. A line break follows an entry that is
  wider than 80 bytes. Exactly two lines of the output after the opening line are
  family comments, each above the first entry of its family. An entry of the family b
  that comes while the previous family is b gets no comment: \<open>familyGroup\<close> leaves
  the state as it is.
\<close>

theorem family_grouping_example:
  assumes "g ''a.small'' = Some p1" and "g ''a.large'' = Some p2" and "g ''b.small'' = Some p3"
  shows "\<exists>rest. writePricing buf [''a.small'', ''a.large'', ''b.small''] v g =
        Inr (buf @ openingLine v @ rest)
    \<and> rest = ''// a family'' @ [NL]
        @ entry ''a.large'' p2 @ (if 80 < length (entry ''a.large'' p2) then [NL] else [])
        @ entry ''a.small'' p1 @ [NL]
        @ ''// b family'' @ [NL]
        @ entry ''b.small'' p3 @ (if 80 < length (entry ''b.small'' p3) then [NL] else [])
        @ closingLines
    \<and> filter isFamilyComment (linesOf rest) = [''// a family'', ''// b family'']
    \<and> familyGroup (st\<lparr>previousFamily := ''b''\<rparr>) ''b'' = st\<lparr>previousFamily := ''b''\<rparr>"
proof -
  let ?E1 = "entry ''a.small'' p1" and ?E2 = "entry ''a.large'' p2" and ?E3 = "entry ''b.small'' p3"
  let ?w1 = "if 80 < length ?E2 then [NL] else []"
  let ?w3 = "if 80 < length ?E3 then [NL] else []"
  let ?rest = "''// a family'' @ [NL] @ ?E2 @ ?w1 @ ?E1 @ [NL]
        @ ''// b family'' @ [NL] @ ?E3 @ ?w3 @ closingLines"
  have srt: "sort [''a.small'', ''a.large'', ''b.small''] = [''a.large'', ''a.small'', ''b.small'']"
    by code_simp
  have wf: "\<forall>n\<in>set [''a.small'', ''a.large'', ''b.small'']. wellFormed n" by code_simp
  have fam: "familyOf ''a.large'' = ''a''" "familyOf ''a.small'' = ''a''" "familyOf ''b.small'' = ''b''"
    by code_simp+
  have tbl: "priceTable g [''a.small'', ''a.large'', ''b.small''] =
      [(''a.large'', p2), (''a.small'', p1), (''b.small'', p3)]"
    by (simp add: priceTable_def srt assms)
  have out: "writePricing buf [''a.small'', ''a.large'', ''b.small''] v g =
        Inr (buf @ openingLine v @ ?rest)"
    unfolding writePricing_priceTable [OF wf, of buf v g] tbl emit3 [OF fam] by simp
  have nb: "NL \<notin> set ?E1" "NL \<notin> set ?E2" "NL \<notin> set ?E3"
    by (simp_all add: entry_no_break)
  have w: "?w1 = [NL] \<or> ?w1 = []" "?w3 = [NL] \<or> ?w3 = []" by simp_all
  have lines: "filter isFamilyComment (linesOf ?rest) = [''// a family'', ''// b family'']"
    by (rule comment_lines [OF nb entry_not_comment entry_not_comment entry_not_comment w])
  have grp: "familyGroup (st\<lparr>previousFamily := ''b''\<rparr>) ''b'' = st\<lparr>previousFamily := ''b''\<rparr>"
    by (simp add: familyGroup_def)
  from out lines grp show ?thesis by blast
qed

theorem family_grouping_example_witness:
  "priced [(''a.small'', one), (''a.large'', one), (''b.small'', one)] ''a.small'' = Some one
   \<and> priced [(''a.small'', one), (''a.large'', one), (''b.small'', one)] ''a.large'' = Some one
   \<and> priced [(''a.small'', one), (''a.large'', one), (''b.small'', one)] ''b.small'' = Some one
   \<and> writePricing [] [''a.small'', ''a.large'', ''b.small''] ''v''
        (priced [(''a.small'', one), (''a.large'', one), (''b.small'', one)]) =
      Inr (''var v = map[string]float64{'' @ [NL]
           @ ''// a family'' @ [NL]
           @ [DQ] @ ''a.large'' @ [DQ] @ '':1.000000, '' @ [DQ] @ ''a.small'' @ [DQ] @ '':1.000000, '' @ [NL]
           @ ''// b family'' @ [NL]
           @ [DQ] @ ''b.small'' @ [DQ] @ '':1.000000, '' @ [NL] @ ''}'' @ [NL, NL])
   \<and> (\<exists>rest. writePricing [] [''a.small'', ''a.large'', ''b.small''] ''v''
          (priced [(''a.small'', one), (''a.large'', one), (''b.small'', one)]) =
        Inr ([] @ openingLine ''v'' @ rest)
      \<and> filter isFamilyComment (linesOf rest) = [''// a family'', ''// b family''])"
proof -
  let ?g = "priced [(''a.small'', one), (''a.large'', one), (''b.small'', one)]"
  have h1: "?g ''a.small'' = Some one" by (simp add: priced_def)
  have h2: "?g ''a.large'' = Some one" by (simp add: priced_def)
  have h3: "?g ''b.small'' = Some one" by (simp add: priced_def)
  have e: "writePricing [] [''a.small'', ''a.large'', ''b.small''] ''v'' ?g =
      Inr (''var v = map[string]float64{'' @ [NL]
           @ ''// a family'' @ [NL]
           @ [DQ] @ ''a.large'' @ [DQ] @ '':1.000000, '' @ [DQ] @ ''a.small'' @ [DQ] @ '':1.000000, '' @ [NL]
           @ ''// b family'' @ [NL]
           @ [DQ] @ ''b.small'' @ [DQ] @ '':1.000000, '' @ [NL] @ ''}'' @ [NL, NL])"
    by code_simp
  from h1 h2 h3 e family_grouping_example [OF h1 h2 h3, of "[]" "''v''"]
  show ?thesis by blast
qed

end
